theory Spec2Isabelle
  imports Main "HOL-Library.Sublist"
begin

section \<open>Action inputs (inputs.ts)\<close>

text \<open>
  The action reads its inputs through \<^verbatim>\<open>getInput\<close> of the GitHub toolkit. Every call
  in inputs.ts passes \<^verbatim>\<open>{ trimWhitespace: true }\<close>, so the toolkit function is a parameter
  \<open>getInput\<close> of the model: it maps the name of an input to the (trimmed) string the toolkit
  returns, the empty string for an input that is not set.  Strings are byte lists.

  The interface \<^verbatim>\<open>Inputs\<close>; the optional key \<^verbatim>\<open>working-directory\<close> is an option.
\<close>

record Inputs =
  working_directory :: "string option"
  all_features :: bool
  github_token :: string
  check_args :: "string list"
  forbid :: "string list"
  allow :: "string list"
  deny :: "string list"
  args :: "string list"
  warn :: "string list"

text \<open>A thrown \<^verbatim>\<open>Error\<close> carries its message.\<close>

datatype thrown = Thrown string

text \<open>The calls of \<^verbatim>\<open>error\<close> and \<^verbatim>\<open>warning\<close> of the toolkit, in the order they are made.\<close>

datatype log_entry = LogError string | LogWarning string

definition truthy :: "string set" where
  "truthy = {''true'', ''True'', ''TRUE''}"

definition falsy :: "string set" where
  "falsy = {''false'', ''False'', ''FALSE''}"

text \<open>
  \<^verbatim>\<open>getBooleanInput\<close>: \<^verbatim>\<open>!value\<close> holds of the empty string only; a value in neither set
  throws.  The message quotes the name and the value received.
\<close>

definition getBooleanInput :: "(string \<Rightarrow> string) \<Rightarrow> string \<Rightarrow> thrown + bool" where
  "getBooleanInput getInput name =
     (let value = getInput name in
      if value = [] then Inr False
      else if value \<in> truthy then Inr True
      else if value \<in> falsy then Inr False
      else Inl (Thrown (''Value of key ['' @ name @ ''] didn't meet the Yaml 1.2 '' @
                        [CHR 0x22] @ ''Core Schema'' @ [CHR 0x22] @
                        '' specification (received: ['' @ value @ ''])'')))"

text \<open>
  \<^verbatim>\<open>String.prototype.split\<close> with a separator of one character (the action calls it with
  a comma and with a space): the pieces between the occurrences of the separator, the empty
  string giving one empty piece.
\<close>

fun split :: "char \<Rightarrow> string \<Rightarrow> string list" where
  "split sep [] = [[]]"
| "split sep (c # cs) =
     (if c = sep then [] # split sep cs
      else (case split sep cs of
              [] \<Rightarrow> [[c]]
            | p # ps \<Rightarrow> (c # p) # ps))"

text \<open>
  \<^verbatim>\<open>String.prototype.trim\<close> removes the white space and the line terminators of
  ECMAScript from both ends.  Strings are byte lists in UTF-8, so each of these code points
  is the sequence of bytes that encodes it: U+0009 to U+000D, U+0020, U+00A0, U+1680, U+2000
  to U+200A, U+2028, U+2029, U+202F, U+205F, U+3000 and U+FEFF.
\<close>

definition white_space :: "string list" where
  "white_space =
     [[CHR 0x09], [CHR 0x0A], [CHR 0x0B], [CHR 0x0C], [CHR 0x0D], [CHR 0x20],
      [CHR 0xC2, CHR 0xA0],
      [CHR 0xE1, CHR 0x9A, CHR 0x80],
      [CHR 0xE2, CHR 0x80, CHR 0x80], [CHR 0xE2, CHR 0x80, CHR 0x81],
      [CHR 0xE2, CHR 0x80, CHR 0x82], [CHR 0xE2, CHR 0x80, CHR 0x83],
      [CHR 0xE2, CHR 0x80, CHR 0x84], [CHR 0xE2, CHR 0x80, CHR 0x85],
      [CHR 0xE2, CHR 0x80, CHR 0x86], [CHR 0xE2, CHR 0x80, CHR 0x87],
      [CHR 0xE2, CHR 0x80, CHR 0x88], [CHR 0xE2, CHR 0x80, CHR 0x89],
      [CHR 0xE2, CHR 0x80, CHR 0x8A],
      [CHR 0xE2, CHR 0x80, CHR 0xA8], [CHR 0xE2, CHR 0x80, CHR 0xA9],
      [CHR 0xE2, CHR 0x80, CHR 0xAF],
      [CHR 0xE2, CHR 0x81, CHR 0x9F],
      [CHR 0xE3, CHR 0x80, CHR 0x80],
      [CHR 0xEF, CHR 0xBB, CHR 0xBF]]"

text \<open>
  The leading sequences of \<open>ws\<close> are removed one after the other until none is a prefix.
\<close>

function strip_leading :: "string list \<Rightarrow> string \<Rightarrow> string" where
  "strip_leading ws s =
     (case find (\<lambda>w. w \<noteq> [] \<and> prefix w s) ws of
        None \<Rightarrow> s
      | Some w \<Rightarrow> strip_leading ws (drop (length w) s))"
  by pat_completeness auto
termination
proof (relation "measure (\<lambda>(ws, s). length s)")
  show "wf (measure (\<lambda>(ws, s). length s))" by simp
next
  fix ws :: "string list" and s w :: string
  assume "find (\<lambda>w. w \<noteq> [] \<and> prefix w s) ws = Some w"
  then have "w \<noteq> []" and "prefix w s"
    by (auto simp: find_Some_iff)
  then have "s \<noteq> []" by auto
  with \<open>w \<noteq> []\<close> show "((ws, drop (length w) s), (ws, s)) \<in> measure (\<lambda>(ws, s). length s)"
    by simp
qed

text \<open>The trailing white space is the leading white space of the reversed string.\<close>

definition trim :: "string \<Rightarrow> string" where
  "trim s = rev (strip_leading (map rev white_space) (rev (strip_leading white_space s)))"

text \<open>\<^verbatim>\<open>getArrayInput\<close>: split, drop the empty pieces ( \<^verbatim>\<open>filter(Boolean)\<close> ), trim each.\<close>

definition getArrayInput :: "(string \<Rightarrow> string) \<Rightarrow> string \<Rightarrow> char \<Rightarrow> string list" where
  "getArrayInput getInput input sep =
     map trim (filter (\<lambda>s. s \<noteq> []) (split sep (getInput input)))"

definition deprecated :: "string \<Rightarrow> string list \<Rightarrow> log_entry list" where
  "deprecated name xs =
     (if xs \<noteq> [] then
        [LogWarning (''The `'' @ name @
           ''` input is deprecated in v1.4 and can be used within the `check-args` input'')]
      else [])"

text \<open>
  \<^verbatim>\<open>getInputs\<close> returns the log it wrote and either the thrown error, \<^verbatim>\<open>null\<close>
  (\<open>None\<close>) or the inputs.  The object literal evaluates \<^verbatim>\<open>getBooleanInput\<close> after all
  the warnings have been written.
\<close>

definition getInputs :: "(string \<Rightarrow> string) \<Rightarrow> log_entry list \<times> (thrown + Inputs option)" where
  "getInputs getInput =
     (let wd = getInput ''working-directory'';
          token = getInput ''token''
      in if token = [] then ([LogError ''Missing required input: `token`''], Inr None)
         else
           (let allow = getArrayInput getInput ''allow'' (CHR '','');
                deny = getArrayInput getInput ''deny'' (CHR '','');
                forbid = getArrayInput getInput ''forbid'' (CHR '','');
                warn = getArrayInput getInput ''warn'' (CHR '','');
                log = deprecated ''allow'' allow @ deprecated ''deny'' deny @
                      deprecated ''forbid'' forbid @ deprecated ''warn'' warn;
                args = getArrayInput getInput ''args'' (CHR '' '');
                checkArgs = getArrayInput getInput ''check-args'' (CHR '' '')
            in (case getBooleanInput getInput ''all-features'' of
                  Inl e \<Rightarrow> (log, Inl e)
                | Inr b \<Rightarrow>
                    (log, Inr (Some \<lparr> working_directory = Some wd, all_features = b,
                                      github_token = token, check_args = checkArgs,
                                      forbid = forbid, allow = allow, deny = deny,
                                      args = args, warn = warn \<rparr>)))))"

section \<open>Completing the check run (main.ts)\<close>

text \<open>
  An element of \<^verbatim>\<open>renderer.annotations\<close>, with the fields \<^verbatim>\<open>main\<close> reads.  The type is
  declared in clippy.ts; here every field that \<^verbatim>\<open>main\<close> treats as possibly missing
  (\<^verbatim>\<open>!!x.file\<close>, \<^verbatim>\<open>annotation.title!\<close>, \<^verbatim>\<open>annotation.startLine || 0\<close>, the optional columns
  and details of the request) is an option, \<open>None\<close> standing for \<^verbatim>\<open>undefined\<close>.
\<close>

text \<open>The field \<^verbatim>\<open>file\<close> is written \<open>file_name\<close>.\<close>

record annotation =
  file_name :: "string option"
  level :: string
  startLine :: "int option"
  endLine :: "int option"
  startColumn :: "int option"
  endColumn :: "int option"
  rendered :: "string option"
  title :: "string option"

datatype annotation_level = LevelFailure | LevelWarning | LevelNotice

text \<open>An annotation as the request of the check run carries it.\<close>

record check_run_annotation =
  annotation_level :: annotation_level
  path :: "string option"
  start_line :: int
  end_line :: int
  start_column :: "int option"
  end_column :: "int option"
  raw_details :: "string option"
  message :: "string option"

text \<open>\<^verbatim>\<open>!!x.file\<close>: a string that is present and not empty.\<close>

definition has_file :: "annotation \<Rightarrow> bool" where
  "has_file x = (case file_name x of None \<Rightarrow> False | Some f \<Rightarrow> f \<noteq> [])"

text \<open>
  \<^verbatim>\<open>n || 0\<close> on a number that may be missing: the falsy values are \<^verbatim>\<open>undefined\<close> and 0.
\<close>

definition or_zero :: "int option \<Rightarrow> int" where
  "or_zero n = (case n of None \<Rightarrow> 0 | Some k \<Rightarrow> if k = 0 then 0 else k)"

definition to_annotation_level :: "string \<Rightarrow> annotation_level" where
  "to_annotation_level l =
     (if l = ''error'' then LevelFailure
      else if l = ''warning'' then LevelWarning
      else LevelNotice)"

text \<open>The body of the \<^verbatim>\<open>map\<close> callback; the non-null assertions do nothing at run time.\<close>

definition to_check_run_annotation :: "annotation \<Rightarrow> check_run_annotation" where
  "to_check_run_annotation a =
     \<lparr> annotation_level = to_annotation_level (level a),
       path = file_name a,
       start_line = or_zero (startLine a),
       end_line = or_zero (endLine a),
       start_column = startColumn a,
       end_column = endColumn a,
       raw_details = rendered a,
       message = title a \<rparr>"

text \<open>
  \<^verbatim>\<open>renderer.annotations.filter((x) => !!x.file).map(...)\<close>, the expression both branches
  of the output share.
\<close>

definition published :: "annotation list \<Rightarrow> check_run_annotation list" where
  "published anns = map to_check_run_annotation (filter has_file anns)"

datatype conclusion = Success | Failure

text \<open>
  The request that completes the check run.  The owner and repository, the time stamps and
  the title and text of the output come from the environment and the clock and are left out.
\<close>

record check_run_update =
  check_run_id :: int
  conclusion :: conclusion
  summary :: string
  annotations :: "check_run_annotation list"

text \<open>The body of the request, with the two branches of the output as the source has them.\<close>

definition completion :: "int \<Rightarrow> int \<Rightarrow> annotation list \<Rightarrow> check_run_update" where
  "completion i exitCode anns =
     \<lparr> check_run_id = i,
       conclusion = (if exitCode = 0 then Success else Failure),
       summary = (if exitCode = 0 then ''Clippy was successful!'' else ''Clippy failed.''),
       annotations = (if exitCode = 0 then published anns else published anns) \<rparr>"

text \<open>
  What \<^verbatim>\<open>main\<close> does once clippy has run (from the test of \<^verbatim>\<open>canPerformCheckRun\<close> to the
  end).  The request is awaited outside any \<^verbatim>\<open>try\<close>: the parameter \<open>resolves\<close> says of a
  request whether the API accepts it.  When it does, or when no request is sent, \<^verbatim>\<open>main\<close>
  gives \<^verbatim>\<open>process.exitCode\<close> the exit code of clippy.  When the request is rejected the
  assignment is not reached: the handler of \<^verbatim>\<open>main().catch\<close> calls \<^verbatim>\<open>setFailed\<close> with its
  error and \<^verbatim>\<open>process.exit(1)\<close>.  The result holds the request sent, if any, the exit code
  of the process, the message given to \<^verbatim>\<open>setFailed\<close>, if any, and the annotations of the
  renderer, which \<^verbatim>\<open>filter\<close> and \<^verbatim>\<open>map\<close> leave as they are.
\<close>

record run_end =
  request :: "check_run_update option"
  process_exitCode :: int
  failed :: "string option"
  renderer_annotations :: "annotation list"

definition complete_run ::
    "bool \<Rightarrow> int option \<Rightarrow> int \<Rightarrow> annotation list \<Rightarrow> (check_run_update \<Rightarrow> bool) \<Rightarrow> run_end" where
  "complete_run canPerformCheckRun run_id exitCode anns resolves =
     (if canPerformCheckRun \<and> run_id \<noteq> None then
        (let u = completion (the run_id) exitCode anns in
         if resolves u then
           \<lparr> request = Some u, process_exitCode = exitCode, failed = None,
             renderer_annotations = anns \<rparr>
         else
           \<lparr> request = Some u, process_exitCode = 1,
             failed = Some ''@augu/clippy-action failed to run'',
             renderer_annotations = anns \<rparr>)
      else
        \<lparr> request = None, process_exitCode = exitCode, failed = None,
          renderer_annotations = anns \<rparr>)"

section \<open>The diagnostic core: decoder, aggregator, renderer\<close>

text \<open>
  The module that decodes the output of clippy, removes duplicates, groups and renders
  (clippy.ts, imported by main.ts as \<^verbatim>\<open>./clippy\<close>) is not among the sources.  The
  definitions of this section are modelled from the specification, each one from the
  sentences its comment names.
\<close>

text \<open>Modelled from the spec: Severity, the closed enumeration of section 3.\<close>

datatype Severity = Error | Warning | Note

text \<open>
  Modelled from the spec: Span (section 3), a file with a range of lines and columns.
\<close>

record Span =
  span_file :: string
  span_start_line :: nat
  span_end_line :: nat
  span_start_column :: nat
  span_end_column :: nat

text \<open>
  Modelled from the spec: DiagnosticRecord (section 3); \<open>record_title\<close> and
  \<open>record_rendered\<close> are its fields \<^verbatim>\<open>title\<close> and \<^verbatim>\<open>rendered\<close>.
\<close>

record DiagnosticRecord =
  severity :: Severity
  record_title :: string
  record_rendered :: string
  spans :: "Span list"
  primary_span_index :: "nat option"

text \<open>
  Modelled from the spec: the primary span of a record, the span its optional index
  designates (section 3).
\<close>

definition primary_span :: "DiagnosticRecord \<Rightarrow> Span option" where
  "primary_span r =
     (case primary_span_index r of
        None \<Rightarrow> None
      | Some i \<Rightarrow> if i < length (spans r) then Some (spans r ! i) else None)"

text \<open>
  Modelled from the spec: AggregationKey (section 3): file, lines, columns, severity and
  title when a primary span exists; otherwise severity, title and rendered text.
\<close>

datatype AggregationKey =
  SpanKey string nat nat nat nat Severity string
| NoSpanKey Severity string string

definition aggregation_key :: "DiagnosticRecord \<Rightarrow> AggregationKey" where
  "aggregation_key r =
     (case primary_span r of
        Some s \<Rightarrow> SpanKey (span_file s) (span_start_line s) (span_end_line s)
                    (span_start_column s) (span_end_column s) (severity r) (record_title r)
      | None \<Rightarrow> NoSpanKey (severity r) (record_title r) (record_rendered r))"

text \<open>
  Modelled from the spec: Group (section 3), keyed by the file of the primary span, with
  \<open>None\<close> as the key of the records that have no file.
\<close>

record Group =
  group_file :: "string option"
  records :: "DiagnosticRecord list"

definition group_key :: "DiagnosticRecord \<Rightarrow> string option" where
  "group_key r = map_option span_file (primary_span r)"

text \<open>
  Modelled from the spec: the two insertion-ordered mappings of the Aggregator
  (section 4.2), the keys already seen and the groups by file key.
\<close>

record Aggregator =
  seen :: "AggregationKey list"
  groups :: "Group list"

text \<open>
  Modelled from the spec: a surviving record's group is created on first reference to its
  file key and appended to thereafter (section 4.2).
\<close>

fun append_to_group :: "string option \<Rightarrow> DiagnosticRecord \<Rightarrow> Group list \<Rightarrow> Group list" where
  "append_to_group k r [] = [\<lparr> group_file = k, records = [r] \<rparr>]"
| "append_to_group k r (g # gs) =
     (if group_file g = k then g\<lparr> records := records g @ [r] \<rparr> # gs
      else g # append_to_group k r gs)"

text \<open>
  Modelled from the spec: one step of the single pass of the Aggregator; a record whose
  key already exists is dropped (section 4.2).
\<close>

definition observe :: "Aggregator \<Rightarrow> DiagnosticRecord \<Rightarrow> Aggregator" where
  "observe st r =
     (if aggregation_key r \<in> set (seen st) then st
      else \<lparr> seen = seen st @ [aggregation_key r],
             groups = append_to_group (group_key r) r (groups st) \<rparr>)"

text \<open>
  Modelled from the spec: the Aggregator consumes the whole sequence of records and
  produces the ordered sequence of groups (section 4.2).
\<close>

definition aggregate :: "DiagnosticRecord list \<Rightarrow> Group list" where
  "aggregate rs = groups (foldl observe \<lparr> seen = [], groups = [] \<rparr> rs)"

text \<open>
  Modelled from the spec: the structured message of one line (sections 4.1 and 9), a tagged
  union: a diagnostic, with its severity string, message, rendered text and spans, each
  span marked primary or not; or a message of another kind (a build artifact, the end of
  the build).
\<close>

record SourceSpan =
  source_span :: Span
  is_primary :: bool

record SourceDiagnostic =
  source_level :: string
  source_message :: string
  source_rendered :: string
  source_spans :: "SourceSpan list"

datatype Message = Diagnostic SourceDiagnostic | NotDiagnostic

text \<open>
  Modelled from the spec: what the specification leaves to the protocol of the tool: the
  parser of a line (\<open>None\<close> for a line that is not in the structured format) and the
  severities of the aliases specific to the tool (section 4.1).
\<close>

record Protocol =
  parse_line :: "string \<Rightarrow> Message option"
  severity_alias :: "string \<Rightarrow> Severity option"

text \<open>
  Modelled from the spec: severity strings are matched against \<^verbatim>\<open>error\<close>, \<^verbatim>\<open>warning\<close>,
  \<^verbatim>\<open>note\<close> and the aliases; anything unrecognised maps to \<open>Note\<close> (section 4.1).
\<close>

definition decode_severity :: "Protocol \<Rightarrow> string \<Rightarrow> Severity" where
  "decode_severity p s =
     (if s = ''error'' then Error
      else if s = ''warning'' then Warning
      else if s = ''note'' then Note
      else (case severity_alias p s of Some v \<Rightarrow> v | None \<Rightarrow> Note))"

text \<open>
  Modelled from the spec: the primary span is the first span marked primary, or the first
  span listed if none is marked (sections 3 and 4.1).
\<close>

fun first_primary :: "SourceSpan list \<Rightarrow> nat option" where
  "first_primary [] = None"
| "first_primary (s # ss) = (if is_primary s then Some 0 else map_option Suc (first_primary ss))"

definition primary_index :: "SourceSpan list \<Rightarrow> nat option" where
  "primary_index ss =
     (case first_primary ss of
        Some i \<Rightarrow> Some i
      | None \<Rightarrow> if ss = [] then None else Some 0)"

text \<open>
  Modelled from the spec: one line gives zero or one record (section 4.1).  A line that
  does not parse, a message that is not a diagnostic and a diagnostic with an empty message
  are skipped; line and column numbers are passed through.
\<close>

definition decode_line :: "Protocol \<Rightarrow> string \<Rightarrow> DiagnosticRecord option" where
  "decode_line p l =
     (case parse_line p l of
        None \<Rightarrow> None
      | Some NotDiagnostic \<Rightarrow> None
      | Some (Diagnostic d) \<Rightarrow>
          if source_message d = [] then None
          else Some \<lparr> severity = decode_severity p (source_level d),
                      record_title = source_message d,
                      record_rendered = source_rendered d,
                      spans = map source_span (source_spans d),
                      primary_span_index = primary_index (source_spans d) \<rparr>)"

text \<open>
  Modelled from the spec: the line source, read line by line; a read gives a line or
  fails, and the stream ends where the list ends (sections 4.1 and 5).
\<close>

datatype Read = Line string | ReadFailed

datatype PipelineError = StreamReadFailure

text \<open>
  Modelled from the spec: the Stream Decoder (sections 4.1 and 7).  It returns the records
  decoded up to the end of the stream or up to the first read that fails, and the failure.
\<close>

fun decode :: "Protocol \<Rightarrow> Read list \<Rightarrow> DiagnosticRecord list \<times> PipelineError option" where
  "decode p [] = ([], None)"
| "decode p (ReadFailed # rest) = ([], Some StreamReadFailure)"
| "decode p (Line l # rest) =
     (case decode_line p l of
        None \<Rightarrow> decode p rest
      | Some r \<Rightarrow> (r # fst (decode p rest), snd (decode p rest)))"

text \<open>
  Modelled from the spec: Annotation (section 3), the projection of a record, with the level
  of the external three-level scheme.
\<close>

record Annotation =
  ann_file :: "string option"
  ann_start_line :: nat
  ann_end_line :: nat
  ann_start_column :: "nat option"
  ann_end_column :: "nat option"
  ann_level :: annotation_level
  ann_raw_details :: string
  ann_message :: string

text \<open>Modelled from the spec: the mapping of Severity to the level (section 3).\<close>

fun severity_level :: "Severity \<Rightarrow> annotation_level" where
  "severity_level Error = LevelFailure"
| "severity_level Warning = LevelWarning"
| "severity_level Note = LevelNotice"

text \<open>
  Modelled from the spec: the annotation of a record (section 4.3 b); the file is omitted
  when the record has no primary span.  The specification gives no lines for that case;
  they are 0 here, the value \<^verbatim>\<open>main\<close> publishes for a missing line.
\<close>

definition to_annotation :: "DiagnosticRecord \<Rightarrow> Annotation" where
  "to_annotation r =
     (case primary_span r of
        Some s \<Rightarrow>
          \<lparr> ann_file = Some (span_file s),
            ann_start_line = span_start_line s, ann_end_line = span_end_line s,
            ann_start_column = Some (span_start_column s),
            ann_end_column = Some (span_end_column s),
            ann_level = severity_level (severity r),
            ann_raw_details = record_rendered r, ann_message = record_title r \<rparr>
      | None \<Rightarrow>
          \<lparr> ann_file = None, ann_start_line = 0, ann_end_line = 0,
            ann_start_column = None, ann_end_column = None,
            ann_level = severity_level (severity r),
            ann_raw_details = record_rendered r, ann_message = record_title r \<rparr>)"

text \<open>
  Modelled from the spec: a render block (section 4.3 a): a header, the file name or
  \<^verbatim>\<open>general\<close>, and one entry per record of the group, in group order, with the severity
  tag, the title and the rendered detail.
\<close>

record Entry =
  entry_tag :: Severity
  entry_title :: string
  entry_detail :: string

record Block =
  header :: string
  entries :: "Entry list"

definition to_entry :: "DiagnosticRecord \<Rightarrow> Entry" where
  "to_entry r =
     \<lparr> entry_tag = severity r, entry_title = record_title r, entry_detail = record_rendered r \<rparr>"

definition render_block :: "Group \<Rightarrow> Block" where
  "render_block g =
     \<lparr> header = (case group_file g of Some f \<Rightarrow> f | None \<Rightarrow> ''general''),
       entries = map to_entry (records g) \<rparr>"

text \<open>
  Modelled from the spec: the two outputs of the Renderer (section 4.3): one block per
  group, and the annotations flattened in group order, then in the order of the group.
\<close>

definition render_blocks :: "Group list \<Rightarrow> Block list" where
  "render_blocks gs = map render_block gs"

definition render_annotations :: "Group list \<Rightarrow> Annotation list" where
  "render_annotations gs = concat (map (\<lambda>g. map to_annotation (records g)) gs)"

text \<open>
  Modelled from the spec: the pipeline (section 2): decoder, aggregator, renderer.  A failed
  read stops the decoder; the report carries the failure with what was decoded before it
  (section 7).
\<close>

record Report =
  report_blocks :: "Block list"
  report_annotations :: "Annotation list"
  report_failure :: "PipelineError option"

definition pipeline :: "Protocol \<Rightarrow> Read list \<Rightarrow> Report" where
  "pipeline p src =
     (let gs = aggregate (fst (decode p src))
      in \<lparr> report_blocks = render_blocks gs,
           report_annotations = render_annotations gs,
           report_failure = snd (decode p src) \<rparr>)"

section \<open>Invariants of the pass of the aggregator\<close>

text \<open>
  The records of all groups, in group order, and the two invariants the pass of the
  aggregator keeps between a prefix \<open>rs\<close> of the stream and the state reached on it.  They
  serve the proofs below.
\<close>

definition all_records :: "Group list \<Rightarrow> DiagnosticRecord list" where
  "all_records gs = concat (map records gs)"

definition dedup_inv :: "DiagnosticRecord list \<Rightarrow> Aggregator \<Rightarrow> bool" where
  "dedup_inv rs st \<longleftrightarrow>
     set (seen st) = aggregation_key ` set rs \<and>
     aggregation_key ` set (all_records (groups st)) = aggregation_key ` set rs \<and>
     distinct (map aggregation_key (all_records (groups st))) \<and>
     (\<forall>r\<in>set (all_records (groups st)).
        find (\<lambda>x. aggregation_key x = aggregation_key r) rs = Some r)"

definition order_inv :: "DiagnosticRecord list \<Rightarrow> Aggregator \<Rightarrow> bool" where
  "order_inv rs st \<longleftrightarrow>
     seen st = rev (remdups (rev (map aggregation_key rs))) \<and>
     map group_file (groups st) = rev (remdups (rev (map group_key rs))) \<and>
     (\<forall>g\<in>set (groups st).
        (\<forall>r\<in>set (records g). group_key r = group_file g) \<and>
        subseq (map aggregation_key (records g)) (seen st))"

section \<open>Properties of the inputs\<close>

lemma getBooleanInput_cases:
  "getBooleanInput gi n =
     (if gi n = [] then Inr False
      else if gi n \<in> {''true'', ''True'', ''TRUE''} then Inr True
      else if gi n \<in> {''false'', ''False'', ''FALSE''} then Inr False
      else Inl (Thrown (''Value of key ['' @ n @ ''] didn't meet the Yaml 1.2 '' @
                        [CHR 0x22] @ ''Core Schema'' @ [CHR 0x22] @
                        '' specification (received: ['' @ gi n @ ''])'')))"
  by (simp add: getBooleanInput_def truthy_def falsy_def Let_def)

text \<open>
  Claim C9.  \<^verbatim>\<open>getInputs\<close> returns \<^verbatim>\<open>null\<close> exactly when the input \<^verbatim>\<open>token\<close> is the empty
  string.  For \<^verbatim>\<open>all-features\<close>, \<^verbatim>\<open>getBooleanInput\<close> gives false on the empty value, true
  exactly on \<^verbatim>\<open>true\<close>, \<^verbatim>\<open>True\<close>, \<^verbatim>\<open>TRUE\<close>, false on \<^verbatim>\<open>false\<close>, \<^verbatim>\<open>False\<close>, \<^verbatim>\<open>FALSE\<close>, and
  throws on every other value; with a token present \<^verbatim>\<open>getInputs\<close> then throws as well
  instead of returning \<^verbatim>\<open>null\<close>.
\<close>

theorem getInputs_null_iff_token_empty:
  "(snd (getInputs gi) = Inr None \<longleftrightarrow> gi ''token'' = []) \<and>
   (gi ''all-features'' = [] \<longrightarrow> getBooleanInput gi ''all-features'' = Inr False) \<and>
   (getBooleanInput gi ''all-features'' = Inr True \<longleftrightarrow>
      gi ''all-features'' \<in> {''true'', ''True'', ''TRUE''}) \<and>
   (gi ''all-features'' \<in> {''false'', ''False'', ''FALSE''} \<longrightarrow>
      getBooleanInput gi ''all-features'' = Inr False) \<and>
   (gi ''all-features'' \<notin> {[], ''true'', ''True'', ''TRUE'', ''false'', ''False'', ''FALSE''} \<longrightarrow>
      (\<exists>m. getBooleanInput gi ''all-features'' = Inl (Thrown m)) \<and>
      (gi ''token'' \<noteq> [] \<longrightarrow> (\<exists>m. snd (getInputs gi) = Inl (Thrown m))))"
proof -
  have null: "snd (getInputs gi) = Inr None \<longleftrightarrow> gi ''token'' = []"
    by (simp add: getInputs_def Let_def split: sum.splits)
  have thrown: "snd (getInputs gi) = Inl (Thrown m)"
    if "gi ''token'' \<noteq> []" "getBooleanInput gi ''all-features'' = Inl (Thrown m)" for m
    using that by (simp add: getInputs_def Let_def)
  show ?thesis
    using null thrown by (auto simp: getBooleanInput_cases)
qed

text \<open>With a token and \<^verbatim>\<open>all-features: yes\<close> the call throws.\<close>

theorem getInputs_null_iff_token_empty_witness:
  "\<exists>m. snd (getInputs (\<lambda>n. if n = ''token'' then ''ghp''
                          else if n = ''all-features'' then ''yes'' else [])) = Inl (Thrown m)"
  using getInputs_null_iff_token_empty
    [of "\<lambda>n. if n = ''token'' then ''ghp'' else if n = ''all-features'' then ''yes'' else []"]
  by simp

section \<open>Properties of the completed check run\<close>

lemma published_elem:
  "c \<in> set (published anns) \<longleftrightarrow> (\<exists>a\<in>set anns. has_file a \<and> c = to_check_run_annotation a)"
  by (auto simp: published_def)

lemma request_completion:
  "request (complete_run cp i e anns rv) = Some u \<Longrightarrow>
     cp \<and> i \<noteq> None \<and> u = completion (the i) e anns"
  by (auto simp: complete_run_def Let_def split: if_splits)

lemma request_annotations:
  "request (complete_run cp i e anns rv) = Some u \<Longrightarrow> annotations u = published anns"
  by (auto simp: completion_def dest: request_completion)

lemma has_file_iff: "has_file a \<longleftrightarrow> (\<exists>f. file_name a = Some f \<and> f \<noteq> [])"
  by (simp add: has_file_def split: option.splits)

text \<open>
  Claim C2.  Every annotation of the request comes from an annotation of the renderer, and
  its level is \<^verbatim>\<open>failure\<close> exactly for the severity \<^verbatim>\<open>error\<close>, \<^verbatim>\<open>warning\<close> exactly for
  \<^verbatim>\<open>warning\<close>, and \<^verbatim>\<open>notice\<close> for every other severity string: for \<^verbatim>\<open>note\<close> and for any
  string that is not recognised.
\<close>

theorem annotation_level_from_severity:
  assumes "request (complete_run cp i e anns rv) = Some u" and "c \<in> set (annotations u)"
  shows "\<exists>a\<in>set anns. c = to_check_run_annotation a \<and>
           (annotation_level c = LevelFailure \<longleftrightarrow> level a = ''error'') \<and>
           (annotation_level c = LevelWarning \<longleftrightarrow> level a = ''warning'') \<and>
           (annotation_level c = LevelNotice \<longleftrightarrow>
              level a \<noteq> ''error'' \<and> level a \<noteq> ''warning'') \<and>
           (level a = ''note'' \<longrightarrow> annotation_level c = LevelNotice)"
proof -
  from assms have "c \<in> set (published anns)"
    by (simp add: request_annotations)
  then obtain a where a: "a \<in> set anns" "c = to_check_run_annotation a"
    by (auto simp: published_elem)
  have "annotation_level c = to_annotation_level (level a)"
    using a(2) by (simp add: to_check_run_annotation_def)
  then show ?thesis
    using a by (auto simp: to_annotation_level_def)
qed

text \<open>An annotation of severity \<^verbatim>\<open>help\<close> is published as a notice.\<close>

theorem annotation_level_from_severity_witness:
  "\<exists>a\<in>set [\<lparr> file_name = Some ''src/lib.rs'', level = ''help'', startLine = Some 10,
                endLine = None, startColumn = Some 5, endColumn = None,
                rendered = Some ''r'', title = Some ''t'' \<rparr>].
      annotation_level (to_check_run_annotation a) = LevelNotice"
proof -
  let ?a = "\<lparr> file_name = Some ''src/lib.rs'', level = ''help'', startLine = Some 10,
                endLine = None, startColumn = Some 5, endColumn = None,
                rendered = Some ''r'', title = Some ''t'' \<rparr>"
  let ?u = "\<lparr> check_run_id = 7, conclusion = Success, summary = ''Clippy was successful!'',
              annotations = [to_check_run_annotation ?a] \<rparr>"
  have r: "request (complete_run True (Some 7) 0 [?a] (\<lambda>u. True)) = Some ?u"
    by (simp add: complete_run_def completion_def published_def has_file_def)
  have m: "to_check_run_annotation ?a \<in> set (annotations ?u)"
    by simp
  show ?thesis
    using annotation_level_from_severity [OF r m] by auto
qed




text \<open>
  Claim C10.  Every annotation of the request comes from an annotation of the renderer:
  its start and end line are those of the record, and 0 where the record has none (a line 0
  stays 0); the columns are passed on as they are, present or not; the message is the title
  and the raw details are the rendered text.
\<close>

theorem published_lines_and_text:
  assumes "request (complete_run cp i e anns rv) = Some u" and "c \<in> set (annotations u)"
  shows "\<exists>a\<in>set anns. c = to_check_run_annotation a \<and>
           start_line c = (case startLine a of None \<Rightarrow> 0 | Some n \<Rightarrow> n) \<and>
           end_line c = (case endLine a of None \<Rightarrow> 0 | Some n \<Rightarrow> n) \<and>
           start_column c = startColumn a \<and> end_column c = endColumn a \<and>
           message c = title a \<and> raw_details c = rendered a"
proof -
  from assms have "c \<in> set (published anns)"
    by (simp add: request_annotations)
  then obtain a where a: "a \<in> set anns" "c = to_check_run_annotation a"
    by (auto simp: published_elem)
  have z: "or_zero x = (case x of None \<Rightarrow> 0 | Some n \<Rightarrow> n)" for x
    by (simp add: or_zero_def split: option.splits)
  show ?thesis
    using a by (auto simp: to_check_run_annotation_def z)
qed

text \<open>An annotation with a start line and no end line is published with the end line 0.\<close>

theorem published_lines_and_text_witness:
  "\<exists>a\<in>set [\<lparr> file_name = Some ''src/lib.rs'', level = ''warning'', startLine = Some 10,
                endLine = None, startColumn = Some 5, endColumn = None,
                rendered = Some ''r'', title = Some ''t'' \<rparr>].
      start_line (to_check_run_annotation a) = 10 \<and>
      end_line (to_check_run_annotation a) = 0 \<and>
      end_column (to_check_run_annotation a) = None \<and>
      message (to_check_run_annotation a) = Some ''t''"
proof -
  let ?a = "\<lparr> file_name = Some ''src/lib.rs'', level = ''warning'', startLine = Some 10,
                endLine = None, startColumn = Some 5, endColumn = None,
                rendered = Some ''r'', title = Some ''t'' \<rparr>"
  let ?u = "\<lparr> check_run_id = 7, conclusion = Failure, summary = ''Clippy failed.'',
              annotations = [to_check_run_annotation ?a] \<rparr>"
  have r: "request (complete_run True (Some 7) 1 [?a] (\<lambda>u. True)) = Some ?u"
    by (simp add: complete_run_def completion_def published_def has_file_def)
  have m: "to_check_run_annotation ?a \<in> set (annotations ?u)"
    by simp
  show ?thesis
    using published_lines_and_text [OF r m] by auto
qed

section \<open>Properties of the aggregator\<close>

lemma all_records_Nil: "all_records [] = []"
  by (simp add: all_records_def)

lemma all_records_Cons: "all_records (g # gs) = records g @ all_records gs"
  by (simp add: all_records_def)

lemma seen_foldl:
  "set (seen (foldl observe st rs)) = set (seen st) \<union> aggregation_key ` set rs"
  by (induction rs arbitrary: st) (auto simp: observe_def)

lemma observe_seen_key: "aggregation_key b \<in> set (seen st) \<Longrightarrow> observe st b = st"
  by (simp add: observe_def)

lemma observe_new_key:
  "aggregation_key b \<notin> set (seen st) \<Longrightarrow>
   observe st b = \<lparr> seen = seen st @ [aggregation_key b],
                    groups = append_to_group (group_key b) b (groups st) \<rparr>"
  by (simp add: observe_def)

lemma aggregate_drop_later:
  assumes "aggregation_key b \<in> aggregation_key ` set xs"
  shows "aggregate (xs @ b # ys) = aggregate (xs @ ys)"
proof -
  let ?st = "foldl observe \<lparr> seen = [], groups = [] \<rparr> xs"
  have "aggregation_key b \<in> set (seen ?st)"
    using assms by (simp add: seen_foldl)
  then have "observe ?st b = ?st" by (rule observe_seen_key)
  then show ?thesis by (simp add: aggregate_def)
qed

lemma set_all_records_append_to_group:
  "set (all_records (append_to_group k r gs)) = insert r (set (all_records gs))"
  by (induction gs) (simp_all add: all_records_Nil all_records_Cons)

lemma distinct_keys_append_to_group:
  "distinct (map aggregation_key (all_records gs)) \<Longrightarrow>
   aggregation_key r \<notin> aggregation_key ` set (all_records gs) \<Longrightarrow>
   distinct (map aggregation_key (all_records (append_to_group k r gs)))"
proof (induction gs)
  case Nil
  then show ?case by (simp add: all_records_Nil all_records_Cons)
next
  case (Cons g gs)
  show ?case
  proof (cases "group_file g = k")
    case True
    then show ?thesis
      using Cons.prems by (auto simp: all_records_Cons)
  next
    case False
    have "distinct (map aggregation_key (all_records (append_to_group k r gs)))"
      using Cons by (simp add: all_records_Cons image_Un)
    then show ?thesis
      using False Cons.prems
      by (auto simp: all_records_Cons set_all_records_append_to_group)
  qed
qed

lemma find_snoc_old:
  "find P rs = Some r \<Longrightarrow> find P (rs @ [x]) = Some r"
  by (induction rs) auto

lemma find_snoc_new:
  "\<forall>y\<in>set rs. \<not> P y \<Longrightarrow> P x \<Longrightarrow> find P (rs @ [x]) = Some x"
  by (induction rs) auto

lemma dedup_inv_step:
  assumes "dedup_inv rs st"
  shows "dedup_inv (rs @ [x]) (observe st x)"
proof (cases "aggregation_key x \<in> set (seen st)")
  case True
  then have same: "observe st x = st" by (rule observe_seen_key)
  have keys: "aggregation_key ` set (rs @ [x]) = aggregation_key ` set rs"
    using True assms by (auto simp: dedup_inv_def)
  have "find (\<lambda>y. aggregation_key y = aggregation_key r) (rs @ [x]) = Some r"
    if "r \<in> set (all_records (groups st))" for r
    using that assms by (simp add: dedup_inv_def find_snoc_old)
  then show ?thesis
    unfolding same using assms keys unfolding dedup_inv_def by simp
next
  case False
  let ?out = "all_records (groups st)"
  have fresh: "aggregation_key x \<notin> aggregation_key ` set rs"
    using False assms by (simp add: dedup_inv_def)
  have fresh': "aggregation_key x \<notin> aggregation_key ` set ?out"
    using fresh assms by (simp add: dedup_inv_def)
  have obs: "observe st x = \<lparr> seen = seen st @ [aggregation_key x],
             groups = append_to_group (group_key x) x (groups st) \<rparr>"
    using False by (rule observe_new_key)
  have d: "distinct (map aggregation_key
             (all_records (append_to_group (group_key x) x (groups st))))"
    using assms fresh' by (intro distinct_keys_append_to_group) (simp_all add: dedup_inv_def)
  have f: "find (\<lambda>y. aggregation_key y = aggregation_key r) (rs @ [x]) = Some r"
    if "r \<in> insert x (set ?out)" for r
  proof (cases "r \<in> set ?out")
    case True
    then show ?thesis using assms by (simp add: dedup_inv_def find_snoc_old)
  next
    case False
    then have "r = x" using that by simp
    moreover have "\<forall>y\<in>set rs. aggregation_key y \<noteq> aggregation_key x"
      using fresh by (metis imageI)
    ultimately show ?thesis by (simp add: find_snoc_new)
  qed
  have s: "set (seen st) = aggregation_key ` set rs"
    and k: "aggregation_key ` set ?out = aggregation_key ` set rs"
    using assms by (simp_all add: dedup_inv_def)
  show ?thesis
    unfolding dedup_inv_def obs
    using d f s k by (simp add: set_all_records_append_to_group)
qed

lemma dedup_inv_foldl:
  "dedup_inv rs (foldl observe \<lparr> seen = [], groups = [] \<rparr> rs)"
proof (induction rs rule: rev_induct)
  case Nil
  then show ?case by (simp add: dedup_inv_def all_records_Nil)
next
  case (snoc x xs)
  then show ?case by (simp add: dedup_inv_step)
qed

text \<open>
  Claim C1.  The aggregation keys of the records in the groups are distinct and are the keys
  of the stream; each record in a group is the first record of the stream with its key; and
  a record whose key an earlier record has adds nothing: the groups are those of the stream
  without it, whatever its rendered text.
\<close>

theorem first_of_each_key_survives:
  "distinct (map aggregation_key (concat (map records (aggregate rs)))) \<and>
   aggregation_key ` set (concat (map records (aggregate rs))) = aggregation_key ` set rs \<and>
   (\<forall>r\<in>set (concat (map records (aggregate rs))).
      find (\<lambda>x. aggregation_key x = aggregation_key r) rs = Some r) \<and>
   (aggregation_key b \<in> aggregation_key ` set xs \<longrightarrow>
      aggregate (xs @ b # ys) = aggregate (xs @ ys))"
proof -
  have "dedup_inv rs (foldl observe \<lparr> seen = [], groups = [] \<rparr> rs)"
    by (rule dedup_inv_foldl)
  then have "distinct (map aggregation_key (concat (map records (aggregate rs))))"
    and "aggregation_key ` set (concat (map records (aggregate rs))) = aggregation_key ` set rs"
    and "\<forall>r\<in>set (concat (map records (aggregate rs))).
      find (\<lambda>x. aggregation_key x = aggregation_key r) rs = Some r"
    by (simp_all add: dedup_inv_def aggregate_def all_records_def)
  then show ?thesis
    using aggregate_drop_later [of b xs ys] by blast
qed

text \<open>
  Two diagnostics on the same span with the same severity and title, the second with another
  rendered text: the first alone is kept.
\<close>

theorem first_of_each_key_survives_witness:
  "aggregate
     [\<lparr> severity = Error, record_title = ''unused variable'', record_rendered = ''first'',
        spans = [\<lparr> span_file = ''src/lib.rs'', span_start_line = 10, span_end_line = 10,
                   span_start_column = 5, span_end_column = 9 \<rparr>],
        primary_span_index = Some 0 \<rparr>,
      \<lparr> severity = Error, record_title = ''unused variable'', record_rendered = ''second'',
        spans = [\<lparr> span_file = ''src/lib.rs'', span_start_line = 10, span_end_line = 10,
                   span_start_column = 5, span_end_column = 9 \<rparr>],
        primary_span_index = Some 0 \<rparr>] =
   [\<lparr> group_file = Some ''src/lib.rs'',
      records = [\<lparr> severity = Error, record_title = ''unused variable'',
                   record_rendered = ''first'',
                   spans = [\<lparr> span_file = ''src/lib.rs'', span_start_line = 10,
                              span_end_line = 10, span_start_column = 5,
                              span_end_column = 9 \<rparr>],
                   primary_span_index = Some 0 \<rparr>] \<rparr>]"
proof -
  let ?s = "\<lparr> span_file = ''src/lib.rs'', span_start_line = 10, span_end_line = 10,
                   span_start_column = 5, span_end_column = 9 \<rparr>"
  let ?a = "\<lparr> severity = Error, record_title = ''unused variable'', record_rendered = ''first'',
        spans = [?s], primary_span_index = Some 0 \<rparr>"
  let ?b = "\<lparr> severity = Error, record_title = ''unused variable'', record_rendered = ''second'',
        spans = [?s], primary_span_index = Some 0 \<rparr>"
  have k: "aggregation_key ?b \<in> aggregation_key ` set [?a]"
    by (simp add: aggregation_key_def primary_span_def)
  have "aggregate ([?a] @ ?b # []) = aggregate ([?a] @ [])"
    using first_of_each_key_survives [of "[?a, ?b]" ?b "[?a]" "[]"] k by blast
  moreover have "aggregate [?a] = [\<lparr> group_file = Some ''src/lib.rs'', records = [?a] \<rparr>]"
    by (simp add: aggregate_def observe_def group_key_def primary_span_def)
  ultimately show ?thesis by simp
qed

lemma first_seen_snoc:
  "rev (remdups (rev (xs @ [x]))) =
     (if x \<in> set xs then rev (remdups (rev xs)) else rev (remdups (rev xs)) @ [x])"
  by simp

lemma same_key_same_group:
  "aggregation_key a = aggregation_key b \<Longrightarrow> group_key a = group_key b"
  by (auto simp: aggregation_key_def group_key_def split: option.splits)

lemma group_files_append_to_group:
  "map group_file (append_to_group k r gs) =
     (if k \<in> set (map group_file gs) then map group_file gs else map group_file gs @ [k])"
  by (induction gs) auto

lemma group_of_append_to_group:
  assumes "h \<in> set (append_to_group k r gs)"
  shows "h \<in> set gs \<or>
         (group_file h = k \<and> (records h = [r] \<or> (\<exists>g\<in>set gs. group_file g = k \<and> records h = records g @ [r])))"
  using assms by (induction gs) (auto split: if_splits)

lemma order_inv_seen:
  "order_inv rs st \<Longrightarrow> seen st = rev (remdups (rev (map aggregation_key rs)))"
  by (simp add: order_inv_def)

lemma order_inv_files:
  "order_inv rs st \<Longrightarrow> map group_file (groups st) = rev (remdups (rev (map group_key rs)))"
  by (simp add: order_inv_def)

lemma order_inv_records:
  "order_inv rs st \<Longrightarrow> g \<in> set (groups st) \<Longrightarrow>
     (\<forall>r\<in>set (records g). group_key r = group_file g) \<and>
     subseq (map aggregation_key (records g)) (seen st)"
  unfolding order_inv_def by blast

lemma order_invI:
  assumes "seen st = rev (remdups (rev (map aggregation_key rs)))"
    and "map group_file (groups st) = rev (remdups (rev (map group_key rs)))"
    and "\<And>g. g \<in> set (groups st) \<Longrightarrow>
           (\<forall>r\<in>set (records g). group_key r = group_file g) \<and>
           subseq (map aggregation_key (records g)) (seen st)"
  shows "order_inv rs st"
  unfolding order_inv_def using assms by blast

lemma order_inv_step:
  assumes "order_inv rs st"
  shows "order_inv (rs @ [x]) (observe st x)"
proof (cases "aggregation_key x \<in> set (seen st)")
  case True
  then have same: "observe st x = st" by (rule observe_seen_key)
  from True have k: "aggregation_key x \<in> set (map aggregation_key rs)"
    by (simp add: order_inv_seen [OF assms])
  then obtain y where "y \<in> set rs" "aggregation_key y = aggregation_key x"
    by auto
  then have gk: "group_key x \<in> set (map group_key rs)"
    using same_key_same_group by (metis imageI set_map)
  show ?thesis
    unfolding same
  proof (rule order_invI)
    show "seen st = rev (remdups (rev (map aggregation_key (rs @ [x]))))"
      using k by (simp add: order_inv_seen [OF assms])
    show "map group_file (groups st) = rev (remdups (rev (map group_key (rs @ [x]))))"
      using gk by (simp add: order_inv_files [OF assms])
    show "(\<forall>r\<in>set (records g). group_key r = group_file g) \<and>
           subseq (map aggregation_key (records g)) (seen st)" if "g \<in> set (groups st)" for g
      using that by (rule order_inv_records [OF assms])
  qed
next
  case False
  then have fresh: "aggregation_key x \<notin> set (map aggregation_key rs)"
    by (simp add: order_inv_seen [OF assms])
  have obs: "observe st x = \<lparr> seen = seen st @ [aggregation_key x],
             groups = append_to_group (group_key x) x (groups st) \<rparr>"
    using False by (rule observe_new_key)
  have files: "set (map group_file (groups st)) = set (map group_key rs)"
    by (simp add: order_inv_files [OF assms])
  have s: "seen st @ [aggregation_key x] = rev (remdups (rev (map aggregation_key (rs @ [x]))))"
    using fresh by (simp add: order_inv_seen [OF assms])
  have g: "map group_file (append_to_group (group_key x) x (groups st)) =
      rev (remdups (rev (map group_key (rs @ [x]))))"
  proof (cases "group_key x \<in> set (map group_key rs)")
    case True
    then show ?thesis
      using files by (simp add: group_files_append_to_group order_inv_files [OF assms])
  next
    case False
    then show ?thesis
      using files by (simp add: group_files_append_to_group order_inv_files [OF assms])
  qed
  have r: "(\<forall>r\<in>set (records h). group_key r = group_file h) \<and>
        subseq (map aggregation_key (records h)) (seen st @ [aggregation_key x])"
    if h: "h \<in> set (append_to_group (group_key x) x (groups st))" for h
  proof -
    have old: "(\<forall>r\<in>set (records g). group_key r = group_file g) \<and>
        subseq (map aggregation_key (records g)) (seen st)" if "g \<in> set (groups st)" for g
      using that by (rule order_inv_records [OF assms])
    consider "h \<in> set (groups st)"
      | "group_file h = group_key x" "records h = [x]"
      | g where "g \<in> set (groups st)" "group_file h = group_key x"
          "group_file g = group_key x" "records h = records g @ [x]"
      using group_of_append_to_group [OF h] by blast
    then show ?thesis
    proof cases
      case 1
      then have "subseq (map aggregation_key (records h)) (seen st @ [aggregation_key x])"
        using old [of h] by (simp add: list_emb_prefix)
      then show ?thesis using old [of h] 1 by simp
    next
      case 2
      have "subseq ([] @ [aggregation_key x]) (seen st @ [aggregation_key x])"
        by (intro list_emb_append_mono) simp_all
      then show ?thesis using 2 by simp
    next
      case 3
      have "subseq (map aggregation_key (records g) @ [aggregation_key x])
              (seen st @ [aggregation_key x])"
        using old [OF 3(1)] by (intro list_emb_append_mono) simp_all
      then show ?thesis using 3 old [OF 3(1)] by simp
    qed
  qed
  show ?thesis
    unfolding obs
  proof (rule order_invI)
    show "seen \<lparr> seen = seen st @ [aggregation_key x],
             groups = append_to_group (group_key x) x (groups st) \<rparr> =
        rev (remdups (rev (map aggregation_key (rs @ [x]))))"
      using s by simp
    show "map group_file (groups \<lparr> seen = seen st @ [aggregation_key x],
             groups = append_to_group (group_key x) x (groups st) \<rparr>) =
        rev (remdups (rev (map group_key (rs @ [x]))))"
      using g by simp
    show "(\<forall>r\<in>set (records h). group_key r = group_file h) \<and>
           subseq (map aggregation_key (records h))
             (seen \<lparr> seen = seen st @ [aggregation_key x],
                groups = append_to_group (group_key x) x (groups st) \<rparr>)"
      if "h \<in> set (groups \<lparr> seen = seen st @ [aggregation_key x],
             groups = append_to_group (group_key x) x (groups st) \<rparr>)" for h
      using that r [of h] by simp
  qed
qed

lemma order_inv_foldl:
  "order_inv rs (foldl observe \<lparr> seen = [], groups = [] \<rparr> rs)"
proof (induction rs rule: rev_induct)
  case Nil
  then show ?case by (simp add: order_inv_def)
next
  case (snoc x xs)
  then show ?case by (simp add: order_inv_step)
qed

text \<open>
  Claim C4.  The groups are in the order in which their file keys are first referenced in
  the stream (\<open>rev (remdups (rev ks))\<close> is \<open>ks\<close> with the first occurrence of each key
  kept); there is one block per group, in that order, with the header of the group and its
  entries in the order of the group; and within a group the records belong to the group and
  their keys are in the order in which the keys are first seen in the stream.
\<close>

theorem blocks_in_first_seen_order:
  "map group_file (aggregate rs) = rev (remdups (rev (map group_key rs))) \<and>
   length (render_blocks (aggregate rs)) = length (aggregate rs) \<and>
   (\<forall>i<length (aggregate rs).
      header (render_blocks (aggregate rs) ! i) =
        (case group_file (aggregate rs ! i) of Some f \<Rightarrow> f | None \<Rightarrow> ''general'') \<and>
      entries (render_blocks (aggregate rs) ! i) = map to_entry (records (aggregate rs ! i))) \<and>
   (\<forall>g\<in>set (aggregate rs).
      (\<forall>r\<in>set (records g). group_key r = group_file g) \<and>
      subseq (map aggregation_key (records g))
        (rev (remdups (rev (map aggregation_key rs)))))"
proof -
  have inv: "order_inv rs (foldl observe \<lparr> seen = [], groups = [] \<rparr> rs)"
    by (rule order_inv_foldl)
  have files: "map group_file (aggregate rs) = rev (remdups (rev (map group_key rs)))"
    using order_inv_files [OF inv] by (simp add: aggregate_def)
  have recs: "\<forall>g\<in>set (aggregate rs).
      (\<forall>r\<in>set (records g). group_key r = group_file g) \<and>
      subseq (map aggregation_key (records g))
        (rev (remdups (rev (map aggregation_key rs))))"
    using order_inv_records [OF inv] unfolding order_inv_seen [OF inv] aggregate_def by blast
  have blocks: "length (render_blocks (aggregate rs)) = length (aggregate rs) \<and>
   (\<forall>i<length (aggregate rs).
      header (render_blocks (aggregate rs) ! i) =
        (case group_file (aggregate rs ! i) of Some f \<Rightarrow> f | None \<Rightarrow> ''general'') \<and>
      entries (render_blocks (aggregate rs) ! i) = map to_entry (records (aggregate rs ! i)))"
    by (simp add: render_blocks_def render_block_def)
  show ?thesis
    using files recs blocks by blast
qed

text \<open>
  A warning in \<^verbatim>\<open>src/b.rs\<close>, then an error in \<^verbatim>\<open>src/a.rs\<close>, then a note without a span:
  the blocks keep this order, neither alphabetical nor by severity.
\<close>

theorem blocks_in_first_seen_order_witness:
  "map header (render_blocks (aggregate
     [\<lparr> severity = Warning, record_title = ''w'', record_rendered = ''rw'',
        spans = [\<lparr> span_file = ''src/b.rs'', span_start_line = 3, span_end_line = 3,
                   span_start_column = 1, span_end_column = 2 \<rparr>],
        primary_span_index = Some 0 \<rparr>,
      \<lparr> severity = Error, record_title = ''e'', record_rendered = ''re'',
        spans = [\<lparr> span_file = ''src/a.rs'', span_start_line = 1, span_end_line = 1,
                   span_start_column = 1, span_end_column = 2 \<rparr>],
        primary_span_index = Some 0 \<rparr>,
      \<lparr> severity = Note, record_title = ''n'', record_rendered = ''rn'',
        spans = [], primary_span_index = None \<rparr>])) = [''src/b.rs'', ''src/a.rs'', ''general'']"
proof -
  let ?w = "\<lparr> severity = Warning, record_title = ''w'', record_rendered = ''rw'',
        spans = [\<lparr> span_file = ''src/b.rs'', span_start_line = 3, span_end_line = 3,
                   span_start_column = 1, span_end_column = 2 \<rparr>],
        primary_span_index = Some 0 \<rparr>"
  let ?e = "\<lparr> severity = Error, record_title = ''e'', record_rendered = ''re'',
        spans = [\<lparr> span_file = ''src/a.rs'', span_start_line = 1, span_end_line = 1,
                   span_start_column = 1, span_end_column = 2 \<rparr>],
        primary_span_index = Some 0 \<rparr>"
  let ?n = "\<lparr> severity = Note, record_title = ''n'', record_rendered = ''rn'',
        spans = [], primary_span_index = None \<rparr>"
  let ?gs = "aggregate [?w, ?e, ?n]"
  note order = blocks_in_first_seen_order [of "[?w, ?e, ?n]"]
  have "map group_file ?gs = rev (remdups (rev (map group_key [?w, ?e, ?n])))"
    using order by (rule conjunct1)
  also have "\<dots> = [Some ''src/b.rs'', Some ''src/a.rs'', None]"
    by (simp add: group_key_def primary_span_def)
  finally have files: "map group_file ?gs = [Some ''src/b.rs'', Some ''src/a.rs'', None]" .
  have lenb: "length (render_blocks ?gs) = length ?gs"
    using order by blast
  have third: "\<forall>i<length ?gs. header (render_blocks ?gs ! i) =
        (case group_file (?gs ! i) of Some f \<Rightarrow> f | None \<Rightarrow> ''general'')"
    using order by blast
  have "map header (render_blocks ?gs) =
      map (\<lambda>k. case k of Some f \<Rightarrow> f | None \<Rightarrow> ''general'') (map group_file ?gs)"
    using third lenb by (simp add: list_eq_iff_nth_eq)
  then show ?thesis
    unfolding files by simp
qed

section \<open>Published annotations and the console rendering\<close>

lemma aggregate_group_key:
  assumes "g \<in> set (aggregate rs)" and "r \<in> set (records g)"
  shows "group_key r = group_file g"
proof -
  have "order_inv rs (foldl observe \<lparr> seen = [], groups = [] \<rparr> rs)"
    by (rule order_inv_foldl)
  then show ?thesis
    using assms order_inv_records unfolding aggregate_def by blast
qed

lemma console_keeps:
  assumes "g \<in> set (aggregate rs)" and "r \<in> set (records g)" and "primary_span r = None"
  shows "\<exists>b\<in>set (render_blocks (aggregate rs)). header b = ''general'' \<and> to_entry r \<in> set (entries b)"
proof -
  have "group_file g = None"
    using aggregate_group_key [OF assms(1,2)] assms(3) by (simp add: group_key_def)
  then have "header (render_block g) = ''general''"
    by (simp add: render_block_def)
  moreover have "to_entry r \<in> set (entries (render_block g))"
    using assms(2) by (simp add: render_block_def)
  moreover have "render_block g \<in> set (render_blocks (aggregate rs))"
    using assms(1) by (simp add: render_blocks_def)
  ultimately show ?thesis by blast
qed

lemma published_paths:
  "map path (published anns) =
     filter (\<lambda>p. \<exists>f. p = Some f \<and> f \<noteq> []) (map file_name anns)"
  by (induction anns) (auto simp: published_def has_file_iff to_check_run_annotation_def)

text \<open>
  Claim C3.  The request carries exactly the annotations whose file is present and not
  empty, in their order, each with its path, and an annotation without a file adds nothing
  to the published list; publishing leaves the annotations of the renderer as they are.  In
  every aggregated output a record without a primary span has an annotation without a file,
  and its entry stays in the console rendering, in a block headed \<^verbatim>\<open>general\<close>.  When the
  annotations of the renderer carry the files of the annotations of the aggregated output,
  the published paths are exactly the files among them that are present and not empty.
\<close>

theorem published_only_with_file:
  "renderer_annotations (complete_run cp i e anns rv) = anns \<and>
   (\<forall>u. request (complete_run cp i e anns rv) = Some u \<longrightarrow>
      annotations u =
        map to_check_run_annotation
          (filter (\<lambda>a. \<exists>f. file_name a = Some f \<and> f \<noteq> []) anns) \<and>
      (\<forall>c\<in>set (annotations u). \<exists>f. path c = Some f \<and> f \<noteq> [])) \<and>
   (file_name a = None \<longrightarrow> published (xs @ a # ys) = published (xs @ ys)) \<and>
   (\<forall>g\<in>set (aggregate rs). \<forall>r\<in>set (records g). primary_span r = None \<longrightarrow>
      ann_file (to_annotation r) = None \<and>
      (\<exists>b\<in>set (render_blocks (aggregate rs)).
         header b = ''general'' \<and> to_entry r \<in> set (entries b))) \<and>
   (map file_name anns = map ann_file (render_annotations (aggregate rs)) \<longrightarrow>
      (\<forall>u. request (complete_run cp i e anns rv) = Some u \<longrightarrow>
         map path (annotations u) =
           filter (\<lambda>p. \<exists>f. p = Some f \<and> f \<noteq> [])
             (map ann_file (render_annotations (aggregate rs)))))"
proof -
  have kept: "renderer_annotations (complete_run cp i e anns rv) = anns"
    by (simp add: complete_run_def Let_def)
  have sel: "published anns =
      map to_check_run_annotation (filter (\<lambda>a. \<exists>f. file_name a = Some f \<and> f \<noteq> []) anns)"
    unfolding published_def using has_file_iff by (metis (mono_tags, lifting) filter_cong)
  have paths: "\<exists>f. path c = Some f \<and> f \<noteq> []" if "c \<in> set (published anns)" for c
    using that by (auto simp: published_elem has_file_iff to_check_run_annotation_def)
  have dropped: "published (xs @ a # ys) = published (xs @ ys)" if "file_name a = None"
    using that by (simp add: published_def has_file_def)
  have console: "ann_file (to_annotation r) = None \<and>
      (\<exists>b\<in>set (render_blocks (aggregate rs)).
         header b = ''general'' \<and> to_entry r \<in> set (entries b))"
    if "g \<in> set (aggregate rs)" "r \<in> set (records g)" "primary_span r = None" for g r
    using console_keeps [OF that] that(3) by (simp add: to_annotation_def)
  have linked: "map path (annotations u) =
           filter (\<lambda>p. \<exists>f. p = Some f \<and> f \<noteq> [])
             (map ann_file (render_annotations (aggregate rs)))"
    if "map file_name anns = map ann_file (render_annotations (aggregate rs))"
      and "request (complete_run cp i e anns rv) = Some u" for u
    using request_annotations [OF that(2)] that(1) by (simp add: published_paths)
  show ?thesis
  proof (intro conjI allI impI ballI)
    show "renderer_annotations (complete_run cp i e anns rv) = anns" by (rule kept)
  next
    fix u assume u: "request (complete_run cp i e anns rv) = Some u"
    then have eq: "annotations u = published anns" by (rule request_annotations)
    show "annotations u =
        map to_check_run_annotation (filter (\<lambda>a. \<exists>f. file_name a = Some f \<and> f \<noteq> []) anns)"
      using eq sel by simp
    fix c assume "c \<in> set (annotations u)"
    then show "\<exists>f. path c = Some f \<and> f \<noteq> []"
      using eq paths by simp
  next
    assume "file_name a = None"
    then show "published (xs @ a # ys) = published (xs @ ys)" by (rule dropped)
  next
    fix g r assume "g \<in> set (aggregate rs)" "r \<in> set (records g)" "primary_span r = None"
    then show "ann_file (to_annotation r) = None"
      and "\<exists>b\<in>set (render_blocks (aggregate rs)).
         header b = ''general'' \<and> to_entry r \<in> set (entries b)"
      using console by blast+
  next
    fix u
    assume "map file_name anns = map ann_file (render_annotations (aggregate rs))"
      and "request (complete_run cp i e anns rv) = Some u"
    then show "map path (annotations u) =
           filter (\<lambda>p. \<exists>f. p = Some f \<and> f \<noteq> [])
             (map ann_file (render_annotations (aggregate rs)))"
      by (rule linked)
  qed
qed

text \<open>
  A warning without a span and an error in \<^verbatim>\<open>src/lib.rs\<close>: the request carries the second
  only, and the entry of the first is in the block headed \<^verbatim>\<open>general\<close>.
\<close>

theorem published_only_with_file_witness:
  "map path (published
     [\<lparr> file_name = None, level = ''warning'', startLine = None, endLine = None,
        startColumn = None, endColumn = None, rendered = Some ''r0'',
        title = Some ''deprecated attribute'' \<rparr>,
      \<lparr> file_name = Some ''src/lib.rs'', level = ''error'', startLine = Some 10,
        endLine = Some 10, startColumn = Some 5, endColumn = Some 9,
        rendered = Some ''r1'', title = Some ''unused variable'' \<rparr>]) = [Some ''src/lib.rs''] \<and>
   (\<exists>b\<in>set (render_blocks (aggregate
        [\<lparr> severity = Warning, record_title = ''deprecated attribute'',
           record_rendered = ''r0'', spans = [], primary_span_index = None \<rparr>,
         \<lparr> severity = Error, record_title = ''unused variable'', record_rendered = ''r1'',
           spans = [\<lparr> span_file = ''src/lib.rs'', span_start_line = 10, span_end_line = 10,
                      span_start_column = 5, span_end_column = 9 \<rparr>],
           primary_span_index = Some 0 \<rparr>])).
      header b = ''general'' \<and>
      \<lparr> entry_tag = Warning, entry_title = ''deprecated attribute'',
        entry_detail = ''r0'' \<rparr> \<in> set (entries b))"
proof -
  let ?a0 = "\<lparr> file_name = None, level = ''warning'', startLine = None, endLine = None,
              startColumn = None, endColumn = None, rendered = Some ''r0'',
              title = Some ''deprecated attribute'' \<rparr>"
  let ?a1 = "\<lparr> file_name = Some ''src/lib.rs'', level = ''error'', startLine = Some 10,
              endLine = Some 10, startColumn = Some 5, endColumn = Some 9,
              rendered = Some ''r1'', title = Some ''unused variable'' \<rparr>"
  let ?r0 = "\<lparr> severity = Warning, record_title = ''deprecated attribute'',
           record_rendered = ''r0'', spans = [], primary_span_index = None \<rparr>"
  let ?r1 = "\<lparr> severity = Error, record_title = ''unused variable'', record_rendered = ''r1'',
           spans = [\<lparr> span_file = ''src/lib.rs'', span_start_line = 10, span_end_line = 10,
                      span_start_column = 5, span_end_column = 9 \<rparr>],
           primary_span_index = Some 0 \<rparr>"
  let ?g = "\<lparr> group_file = None, records = [?r0] \<rparr>"
  note t = published_only_with_file
    [of True "Some 7" 1 "[?a0, ?a1]" "\<lambda>u. True" ?a0 "[]" "[?a1]" "[?r0, ?r1]"]
  have "published ([] @ ?a0 # [?a1]) = published ([] @ [?a1])"
    using t by simp
  then have p: "map path (published [?a0, ?a1]) = [Some ''src/lib.rs'']"
    by (simp add: published_def has_file_def to_check_run_annotation_def)
  have agg: "aggregate [?r0, ?r1] =
      [?g, \<lparr> group_file = Some ''src/lib.rs'', records = [?r1] \<rparr>]"
    by (simp add: aggregate_def observe_def aggregation_key_def group_key_def primary_span_def)
  have "?g \<in> set (aggregate [?r0, ?r1])" and "?r0 \<in> set (records ?g)"
    and "primary_span ?r0 = None"
    by (simp_all add: agg primary_span_def)
  then have "\<exists>b\<in>set (render_blocks (aggregate [?r0, ?r1])).
      header b = ''general'' \<and> to_entry ?r0 \<in> set (entries b)"
    using t by blast
  then show ?thesis
    using p by (simp add: to_entry_def)
qed

section \<open>Properties of the decoder\<close>

lemma decode_skip:
  "\<forall>d. parse_line p l \<noteq> Some (Diagnostic d) \<Longrightarrow> decode_line p l = None"
  by (auto simp: decode_line_def split: option.splits Message.splits)

lemma decode_nths:
  assumes "\<forall>i\<in>I. i < length src \<longrightarrow>
             (\<exists>l. src ! i = Line l \<and> (\<forall>d. parse_line p l \<noteq> Some (Diagnostic d)))"
  shows "decode p (nths src (- I)) = decode p src"
  using assms
proof (induction src arbitrary: I)
  case Nil
  then show ?case by simp
next
  case (Cons x xs)
  let ?J = "{j. Suc j \<in> I}"
  have J: "{j. Suc j \<in> - I} = - ?J" by auto
  have "\<forall>i\<in>?J. i < length xs \<longrightarrow>
             (\<exists>l. xs ! i = Line l \<and> (\<forall>d. parse_line p l \<noteq> Some (Diagnostic d)))"
    using Cons.prems by fastforce
  then have IH: "decode p (nths xs (- ?J)) = decode p xs"
    by (rule Cons.IH)
  show ?case
  proof (cases "0 \<in> I")
    case True
    then obtain l where l: "x = Line l" "\<forall>d. parse_line p l \<noteq> Some (Diagnostic d)"
      using Cons.prems by fastforce
    then have "decode p (x # xs) = decode p xs"
      by (simp add: decode_skip)
    moreover have "nths (x # xs) (- I) = nths xs (- ?J)"
      using True unfolding nths_Cons J by simp
    ultimately show ?thesis using IH by simp
  next
    case False
    then have "nths (x # xs) (- I) = x # nths xs (- ?J)"
      unfolding nths_Cons J by simp
    then show ?thesis
      using IH by (cases x) (simp_all split: option.splits)
  qed
qed

lemma decode_failure:
  "snd (decode p src) = (if ReadFailed \<in> set src then Some StreamReadFailure else None)"
  by (induction p src rule: decode.induct) (auto split: option.splits)

text \<open>
  Claim C5.  Take any set \<open>I\<close> of positions of the stream at which a line was read that does
  not parse as a diagnostic (plain text, a truncated line, a message of another kind).  The
  stream without these positions gives the same annotations and the same failure.  The
  pipeline reports a failure exactly when a read of the line source failed, and that failure
  is \<open>StreamReadFailure\<close>.
\<close>

theorem skipped_lines_change_nothing:
  assumes "\<forall>i\<in>I. i < length src \<longrightarrow>
             (\<exists>l. src ! i = Line l \<and> (\<forall>d. parse_line p l \<noteq> Some (Diagnostic d)))"
  shows "report_annotations (pipeline p (nths src (- I))) = report_annotations (pipeline p src) \<and>
         report_failure (pipeline p (nths src (- I))) = report_failure (pipeline p src) \<and>
         (report_failure (pipeline p src) = Some StreamReadFailure \<longleftrightarrow> ReadFailed \<in> set src) \<and>
         (report_failure (pipeline p src) = None \<longleftrightarrow> ReadFailed \<notin> set src)"
proof -
  have "decode p (nths src (- I)) = decode p src"
    using assms by (rule decode_nths)
  then have "pipeline p (nths src (- I)) = pipeline p src"
    by (simp add: pipeline_def)
  moreover have "report_failure (pipeline p src) =
      (if ReadFailed \<in> set src then Some StreamReadFailure else None)"
    by (simp add: pipeline_def Let_def decode_failure)
  ultimately show ?thesis by simp
qed

text \<open>A line of noise and a message of another kind around one diagnostic.\<close>

theorem skipped_lines_change_nothing_witness:
  "report_annotations (pipeline
      \<lparr> parse_line = (\<lambda>l. if l = ''d'' then Some (Diagnostic
            \<lparr> source_level = ''warning'', source_message = ''unused'', source_rendered = ''r'',
              source_spans = [] \<rparr>)
          else if l = ''n'' then Some NotDiagnostic else None),
        severity_alias = (\<lambda>s. None) \<rparr>
      [Line ''d'']) =
   report_annotations (pipeline
      \<lparr> parse_line = (\<lambda>l. if l = ''d'' then Some (Diagnostic
            \<lparr> source_level = ''warning'', source_message = ''unused'', source_rendered = ''r'',
              source_spans = [] \<rparr>)
          else if l = ''n'' then Some NotDiagnostic else None),
        severity_alias = (\<lambda>s. None) \<rparr>
      [Line ''noise'', Line ''d'', Line ''n''])"
proof -
  let ?p = "\<lparr> parse_line = (\<lambda>l. if l = ''d'' then Some (Diagnostic
            \<lparr> source_level = ''warning'', source_message = ''unused'', source_rendered = ''r'',
              source_spans = [] \<rparr>)
          else if l = ''n'' then Some NotDiagnostic else None),
        severity_alias = (\<lambda>s. None) \<rparr>"
  let ?src = "[Line ''noise'', Line ''d'', Line ''n'']"
  have h: "\<forall>i\<in>{0, 2}. i < length ?src \<longrightarrow>
             (\<exists>l. ?src ! i = Line l \<and> (\<forall>d. parse_line ?p l \<noteq> Some (Diagnostic d)))"
    by simp
  have n: "nths ?src (- {0, 2}) = [Line ''d'']"
    by (simp add: nths_Cons)
  show ?thesis
    using skipped_lines_change_nothing [OF h] unfolding n by simp
qed

end
